theory Spec2Isabelle
  imports Complex_Main
begin

section \<open>Python primitives used by yt2srt.py\<close>

subsection \<open>Numbers and their formatting\<close>

text \<open>
  Python floats are modelled as exact reals: every operation below is the mathematical
  one, without binary64 rounding, and there is no NaN or infinity.
  \<^item> \<open>x // y\<close> on floats is the floor of the quotient, returned as a float;
  \<^item> \<open>x % y\<close> on floats with a positive divisor is \<open>x - y * floor (x / y)\<close>;
  \<^item> \<open>int(x)\<close> truncates towards zero.
  The divisors in the source are the constants 3600 and 60, so ZeroDivisionError cannot
  occur.
\<close>

definition py_floordiv :: "real \<Rightarrow> real \<Rightarrow> real" where
  "py_floordiv x y = of_int \<lfloor>x / y\<rfloor>"

definition py_mod :: "real \<Rightarrow> real \<Rightarrow> real" where
  "py_mod x y = x - y * of_int \<lfloor>x / y\<rfloor>"

definition py_int :: "real \<Rightarrow> int" where
  "py_int x = (if 0 \<le> x then \<lfloor>x\<rfloor> else \<lceil>x\<rceil>)"

text \<open>\<open>str(n)\<close> for a natural number: its decimal digits, most significant first.\<close>

definition digit_char :: "nat \<Rightarrow> char" where
  "digit_char d = ''0123456789'' ! d"

fun dec_nat :: "nat \<Rightarrow> string" where
  "dec_nat n = (if n < 10 then [digit_char n] else dec_nat (n div 10) @ [digit_char (n mod 10)])"

declare dec_nat.simps [simp del]

definition zfill :: "nat \<Rightarrow> string \<Rightarrow> string" where
  "zfill w s = replicate (w - length s) (CHR ''0'') @ s"

text \<open>
  The format specs \<open>02\<close>, \<open>03\<close> and \<open>02d\<close> applied to an int: zero padding to the
  given minimum width, sign-aware (the sign comes first and counts in the width).
\<close>

definition fmt_int :: "nat \<Rightarrow> int \<Rightarrow> string" where
  "fmt_int w n =
     (if n < 0 then CHR ''-'' # zfill (w - 1) (dec_nat (nat (- n)))
      else zfill w (dec_nat (nat n)))"

text \<open>Reading a decimal numeral back, to state what a formatted field denotes.\<close>

definition digit_val :: "char \<Rightarrow> nat" where
  "digit_val c = of_char c - 48"

definition undec :: "string \<Rightarrow> nat" where
  "undec s = foldl (\<lambda>a c. 10 * a + digit_val c) 0 s"

subsection \<open>The timestamp encoder (write_srt, lines 126-131)\<close>

definition sec_to_timestamp :: "real \<Rightarrow> string" where
  "sec_to_timestamp sec =
     (let hours = py_int (py_floordiv sec 3600);
          minutes = py_int (py_floordiv (py_mod sec 3600) 60);
          seconds = py_int (py_mod sec 60);
          milliseconds = py_int ((sec - of_int (py_int sec)) * 1000)
      in fmt_int 2 hours @ '':'' @ fmt_int 2 minutes @ '':'' @ fmt_int 2 seconds
           @ '','' @ fmt_int 3 milliseconds)"



text \<open>
  The order of Python on strings: lexicographic, characters compared by code point.
\<close>

fun str_le :: "string \<Rightarrow> string \<Rightarrow> bool" where
  "str_le [] ys = True"
| "str_le (x # xs) [] = False"
| "str_le (x # xs) (y # ys) = ((of_char x :: nat) < of_char y \<or> (x = y \<and> str_le xs ys))"

subsection \<open>Strings\<close>

text \<open>
  A \<open>char\<close> stands for one character of a Python \<open>str\<close> with code point below 256.
  On these, \<open>str.isspace\<close> holds for the code points 9-13, 28-32, 133 and 160, and
  \<open>str.lower\<close> adds 32 to the code points of A-Z and of the Latin-1 capitals
  (192-222 except 215).
\<close>

definition py_isspace :: "char \<Rightarrow> bool" where
  "py_isspace c = (of_char c \<in> {9, 10, 11, 12, 13, 28, 29, 30, 31, 32, 133, 160 :: nat})"

definition py_strip :: "string \<Rightarrow> string" where
  "py_strip s = rev (dropWhile py_isspace (rev (dropWhile py_isspace s)))"

definition py_lower_char :: "char \<Rightarrow> char" where
  "py_lower_char c =
     (let n = of_char c :: nat
      in if (65 \<le> n \<and> n \<le> 90) \<or> (192 \<le> n \<and> n \<le> 222 \<and> n \<noteq> 215)
         then char_of (n + 32) else c)"

definition py_lower :: "string \<Rightarrow> string" where
  "py_lower s = map py_lower_char s"

text \<open>
  \<open>s.split(sep)\<close> for a non-empty separator: the pieces between the occurrences of
  \<open>sep\<close>, found from left to right without overlap. \<open>cur\<close> is the piece being read.
  (Python raises ValueError for an empty separator; both separators of the program are
  constants.)
\<close>

function py_split :: "string \<Rightarrow> string \<Rightarrow> string \<Rightarrow> string list" where
  "py_split sep cur s =
     (case s of
        [] \<Rightarrow> [cur]
      | c # cs \<Rightarrow>
          if take (length sep) s = sep then cur # py_split sep [] (drop (length sep - 1) cs)
          else py_split sep (cur @ [c]) cs)"
  by pat_completeness auto
termination
  by (relation "measure (\<lambda>(sep, cur, s). length s)") auto

declare py_split.simps [simp del]

text \<open>\<open>sep.join(xs)\<close>.\<close>

fun py_join :: "string \<Rightarrow> string list \<Rightarrow> string" where
  "py_join sep [] = []"
| "py_join sep [x] = x"
| "py_join sep (x # y # ys) = x @ sep @ py_join sep (y # ys)"

subsection \<open>Paths (posixpath)\<close>

definition path_join :: "string \<Rightarrow> string \<Rightarrow> string" where
  "path_join a b =
     (if take 1 b = ''/'' then b
      else if a = [] \<or> last a = CHR ''/'' then a @ b
      else a @ ''/'' @ b)"

text \<open>One round of the loop of \<open>normpath\<close> over the components of the path.\<close>

definition normpath_step :: "nat \<Rightarrow> string list \<Rightarrow> string \<Rightarrow> string list" where
  "normpath_step initial_slashes new_comps part =
     (if part = [] \<or> part = ''.'' then new_comps
      else if part \<noteq> ''..'' \<or> (initial_slashes = 0 \<and> new_comps = [])
              \<or> (new_comps \<noteq> [] \<and> last new_comps = ''..'')
      then new_comps @ [part]
      else if new_comps \<noteq> [] then butlast new_comps
      else new_comps)"

definition normpath :: "string \<Rightarrow> string" where
  "normpath path =
     (if path = [] then ''.''
      else
        let initial_slashes =
              (if take 1 path = ''/''
               then (if take 2 path = ''//'' \<and> take 3 path \<noteq> ''///'' then 2 else 1)
               else (0::nat));
            comps = py_split ''/'' [] path;
            new_comps = foldl (normpath_step initial_slashes) [] comps;
            path' = replicate initial_slashes (CHR ''/'') @ py_join ''/'' new_comps
        in if path' = [] then ''.'' else path')"

text \<open>\<open>os.path.abspath(path)\<close>, with the current directory made explicit.\<close>

definition abspath :: "string \<Rightarrow> string \<Rightarrow> string" where
  "abspath cwd path = normpath (if take 1 path = ''/'' then path else path_join cwd path)"

text \<open>
  \<open>os.path.splitext(p)\<close>: the extension starts at the last dot of the last component,
  unless only dots precede it there.
\<close>

definition rfind_char :: "char \<Rightarrow> string \<Rightarrow> int" where
  "rfind_char c p =
     (case filter (\<lambda>i. p ! i = c) (rev [0..<length p]) of [] \<Rightarrow> -1 | i # _ \<Rightarrow> int i)"

definition splitext :: "string \<Rightarrow> string \<times> string" where
  "splitext p =
     (let sepIndex = rfind_char (CHR ''/'') p;
          dotIndex = rfind_char (CHR ''.'') p
      in if dotIndex > sepIndex
            \<and> list_ex (\<lambda>i. p ! i \<noteq> CHR ''.'') [nat (sepIndex + 1)..<nat dotIndex]
         then (take (nat dotIndex) p, drop (nat dotIndex) p)
         else (p, []))"

section \<open>Facts about the primitives\<close>

subsection \<open>Decimal numerals\<close>

lemma digit_val_digit_char: "d < 10 \<Longrightarrow> digit_val (digit_char d) = d"
proof -
  assume "d < 10"
  then consider "d = 0" | "d = 1" | "d = 2" | "d = 3" | "d = 4" | "d = 5" | "d = 6" | "d = 7"
    | "d = 8" | "d = 9"
    by atomize_elim arith
  then show ?thesis
    by cases (simp_all add: digit_val_def digit_char_def)
qed

lemma undec_snoc: "undec (s @ [c]) = 10 * undec s + digit_val c"
  by (simp add: undec_def)

lemma undec_dec_nat: "undec (dec_nat n) = n"
proof (induction n rule: dec_nat.induct)
  case (1 n)
  show ?case
  proof (cases "n < 10")
    case True
    then show ?thesis
      using undec_snoc [of "[]" "digit_char n"]
      by (simp add: dec_nat.simps [of n] digit_val_digit_char undec_def)
  next
    case False
    then have "undec (dec_nat n) = 10 * (n div 10) + n mod 10"
      using 1 by (simp add: dec_nat.simps [of n] undec_snoc digit_val_digit_char)
    then show ?thesis by simp
  qed
qed

lemma undec_zeros: "undec (replicate k (CHR ''0'') @ s) = undec s"
proof (induction k)
  case 0
  show ?case by simp
next
  case (Suc k)
  have "undec (CHR ''0'' # replicate k (CHR ''0'') @ s) = undec (replicate k (CHR ''0'') @ s)"
    by (simp add: undec_def digit_val_def)
  with Suc show ?case by simp
qed

lemma undec_zfill: "undec (zfill w s) = undec s"
  by (simp add: zfill_def undec_zeros)

lemma undec_fmt_int: "0 \<le> n \<Longrightarrow> undec (fmt_int w n) = nat n"
  by (simp add: fmt_int_def undec_zfill undec_dec_nat)

subsection \<open>The fields of a timestamp\<close>







lemma py_mod_less: "0 < y \<Longrightarrow> py_mod x y < y"
  using floor_divide_upper [of y x] by (simp add: py_mod_def algebra_simps)




















lemma str_le_refl: "str_le x x"
  by (induction x) simp_all











subsection \<open>Paths that differ in a suffix of their last component\<close>

lemma py_split_slash_Cons:
  "py_split ''/'' cur (c # cs) =
     (if c = CHR ''/'' then cur # py_split ''/'' [] cs else py_split ''/'' (cur @ [c]) cs)"
  by (subst py_split.simps) simp

lemma py_split_slash_Nil: "py_split ''/'' cur [] = [cur]"
  by (subst py_split.simps) simp

lemma py_split_slash_free:
  "CHR ''/'' \<notin> set t \<Longrightarrow> py_split ''/'' cur t = [cur @ t]"
  by (induction t arbitrary: cur) (auto simp add: py_split_slash_Nil py_split_slash_Cons)

lemma py_split_slash_nonempty: "py_split ''/'' cur x \<noteq> []"
  by (induction x arbitrary: cur) (simp_all add: py_split_slash_Nil py_split_slash_Cons)

lemma py_split_slash_append:
  "CHR ''/'' \<notin> set t \<Longrightarrow>
   py_split ''/'' cur (x @ t) =
     butlast (py_split ''/'' cur x) @ [last (py_split ''/'' cur x) @ t]"
proof (induction x arbitrary: cur)
  case Nil
  then show ?case by (simp add: py_split_slash_free py_split_slash_Nil)
next
  case (Cons c x)
  show ?case
    using Cons by (simp add: py_split_slash_Cons py_split_slash_nonempty)
qed

lemma py_join_snoc:
  "py_join sep (xs @ [y]) = (if xs = [] then y else py_join sep xs @ sep @ y)"
  by (induction sep xs rule: py_join.induct) simp_all

lemma normpath_step_keep:
  "3 \<le> length p \<Longrightarrow> normpath_step i new p = new @ [p]"
  by (auto simp add: normpath_step_def)

lemma take_slashes_append:
  assumes "CHR ''/'' \<notin> set t"
  shows "take n (x @ t) = replicate n (CHR ''/'') \<longleftrightarrow> take n x = replicate n (CHR ''/'')"
proof (cases "n \<le> length x")
  case True
  then show ?thesis by simp
next
  case False
  have "take n x \<noteq> replicate n (CHR ''/'')"
    using False by (metis length_replicate length_take min.absorb2 nat_le_linear min.absorb1)
  moreover have "take n (x @ t) \<noteq> replicate n (CHR ''/'')"
  proof
    assume eq: "take n (x @ t) = replicate n (CHR ''/'')"
    show False
    proof (cases t)
      case Nil
      with eq False show False
        by (metis append_Nil2 length_replicate length_take min.absorb2 nat_le_linear min.absorb1)
    next
      case (Cons a t')
      have "a \<in> set (take n (x @ t))"
        using False Cons by (simp add: take_Cons')
      with eq have "a = CHR ''/''" by simp
      with assms Cons show False by simp
    qed
  qed
  ultimately show ?thesis by simp
qed

lemma normpath_append:
  assumes x: "x \<noteq> []"
  shows "\<exists>q. \<forall>t. CHR ''/'' \<notin> set t \<and> 3 \<le> length t \<longrightarrow> normpath (x @ t) = q @ t"
proof -
  define i where "i =
    (if take 1 x = ''/'' then (if take 2 x = ''//'' \<and> take 3 x \<noteq> ''///'' then 2 else 1)
     else (0::nat))"
  define comps where "comps = py_split ''/'' [] x"
  define new where "new = foldl (normpath_step i) [] (butlast comps)"
  define q where "q = replicate i (CHR ''/'') @
    (if new = [] then [] else py_join ''/'' new @ ''/'') @ last comps"
  have "normpath (x @ t) = q @ t" if t: "CHR ''/'' \<notin> set t" "3 \<le> length t" for t
  proof -
    have s1: "take 1 (x @ t) = ''/'' \<longleftrightarrow> take 1 x = ''/''"
      using take_slashes_append [OF t(1), of 1 x] by simp
    have s2: "take 2 (x @ t) = ''//'' \<longleftrightarrow> take 2 x = ''//''"
      using take_slashes_append [OF t(1), of 2 x] by (simp add: numeral_2_eq_2)
    have s3: "take 3 (x @ t) = ''///'' \<longleftrightarrow> take 3 x = ''///''"
      using take_slashes_append [OF t(1), of 3 x] by (simp add: numeral_3_eq_3)
    have i: "(if take 1 (x @ t) = ''/''
              then (if take 2 (x @ t) = ''//'' \<and> take 3 (x @ t) \<noteq> ''///'' then 2 else 1)
              else (0::nat)) = i"
      unfolding i_def s1 s2 s3 by (rule refl)
    have c: "py_split ''/'' [] (x @ t) = butlast comps @ [last comps @ t]"
      unfolding comps_def by (rule py_split_slash_append [OF t(1)])
    have f: "foldl (normpath_step i) [] (butlast comps @ [last comps @ t]) = new @ [last comps @ t]"
      using t(2) by (simp add: new_def normpath_step_keep)
    have "normpath (x @ t) =
      (let p = replicate i (CHR ''/'') @ py_join ''/'' (new @ [last comps @ t])
       in if p = [] then ''.'' else p)"
      using x by (simp only: normpath_def i c f Let_def) simp
    also have "\<dots> = q @ t"
      using t(2) by (auto simp add: Let_def q_def py_join_snoc)
    finally show ?thesis .
  qed
  then show ?thesis by blast
qed

lemma abspath_append:
  assumes x: "x \<noteq> []"
  shows "\<exists>q. \<forall>t. CHR ''/'' \<notin> set t \<and> 3 \<le> length t \<longrightarrow> abspath d (x @ t) = q @ t"
proof -
  define y where "y = (if take 1 x = ''/'' then x else path_join d x)"
  have y: "y \<noteq> []"
    using x by (auto simp add: y_def path_join_def)
  have "(if take 1 (x @ t) = ''/'' then x @ t else path_join d (x @ t)) = y @ t" for t
    using x by (cases x) (auto simp add: y_def path_join_def)
  then have "abspath d (x @ t) = normpath (y @ t)" for t
    by (simp add: abspath_def)
  with normpath_append [OF y] show ?thesis by simp
qed

section \<open>The world of the program\<close>

text \<open>
  A segment of \<open>result["segments"]\<close>: the keys \<open>start\<close>, \<open>end\<close> and \<open>text\<close> that
  \<open>write_srt\<close> reads.
\<close>

record segment =
  seg_start :: real
  seg_end :: real
  seg_text :: string

text \<open>
  The state the program reads and changes: the current working directory of the process,
  the regular files (absolute path and content) and the directories of the filesystem,
  and the log of the calls made to the two external collaborators, in order.
  A path names the file at its \<open>abspath\<close>; there are no symbolic links.
\<close>

datatype call =
    Run_yt_dlp string
  | Transcribe string string "string option"

record world =
  cwd :: string
  files :: "(string \<times> string) list"
  dirs :: "string list"
  calls :: "call list"

text \<open>
  What the program does not decide itself:
  \<^item> whether \<open>os.makedirs(d, exist_ok=True)\<close>, \<open>os.chdir(d)\<close> and
    \<open>open(p, "w")\<close> succeed or raise OSError;
  \<^item> \<open>yt-dlp\<close>, run by \<open>subprocess.run(command, shell=True, check=True)\<close>: from the
    command line, the working directory and the files it gives whether it exited with
    status 0, and the files it left;
  \<^item> \<open>mlx_whisper.transcribe\<close>: from the audio file, the model and the language
    keyword (absent for "auto") it gives \<open>result["segments"]\<close>, or raises.
\<close>

record env =
  can_makedirs :: "string \<Rightarrow> bool"
  can_chdir :: "string \<Rightarrow> bool"
  can_open_w :: "string \<Rightarrow> bool"
  yt_dlp :: "string \<Rightarrow> string \<Rightarrow> (string \<times> string) list \<Rightarrow> bool \<times> (string \<times> string) list"
  transcribe :: "world \<Rightarrow> string \<Rightarrow> string \<Rightarrow> string option \<Rightarrow> segment list option"

definition path_exists :: "world \<Rightarrow> string \<Rightarrow> bool" where
  \<comment> \<open>\<open>os.path.exists(p)\<close>\<close>
  "path_exists s p =
     (p \<noteq> [] \<and>
      (let a = abspath (cwd s) p in a \<in> set (map fst (files s)) \<or> a \<in> set (dirs s)))"

definition makedirs :: "string \<Rightarrow> world \<Rightarrow> world" where
  \<comment> \<open>a successful \<open>os.makedirs(d, exist_ok=True)\<close>\<close>
  "makedirs d s = (if d \<in> set (dirs s) then s else s\<lparr>dirs := dirs s @ [d]\<rparr>)"

definition put_file :: "string \<Rightarrow> string \<Rightarrow> (string \<times> string) list \<Rightarrow> (string \<times> string) list" where
  \<comment> \<open>the files once \<open>a\<close> has been created or truncated and \<open>doc\<close> written to it\<close>
  "put_file a doc fs = filter (\<lambda>(q, _). q \<noteq> a) fs @ [(a, doc)]"

section \<open>download_youtube_audio (lines 8-57)\<close>

definition video_id_of :: "string \<Rightarrow> string" where
  \<comment> \<open>\<open>url.split('watch?v=')[-1][:11]\<close>\<close>
  "video_id_of url = take 11 (last (py_split ''watch?v='' [] url))"

definition yt_dlp_command :: "string \<Rightarrow> string \<Rightarrow> string \<Rightarrow> string" where
  "yt_dlp_command format output_template url =
     ''yt-dlp '' @ ''--hls-use-mpegts '' @ ''--force-overwrites ''
       @ ''-x --audio-format '' @ format @ '' ''
       @ ''-o '' @ [CHR 0x27] @ output_template @ [CHR 0x27] @ '' ''
       @ [CHR 0x27] @ url @ [CHR 0x27]"

text \<open>
  Every exception inside the \<open>try\<close> block ends in \<open>return None\<close>; the state reached
  when it was raised stays.
\<close>

definition download_youtube_audio :: "env \<Rightarrow> string \<Rightarrow> string \<Rightarrow> world \<Rightarrow> string option \<times> world" where
  "download_youtube_audio e url format s =
     (if url = [] then (None, s)
      else
        let workspace_dir = path_join (cwd s) ''whisper_workspace'' in
        if \<not> can_makedirs e workspace_dir then (None, s)
        else
          let s1 = makedirs workspace_dir s in
          if \<not> can_chdir e workspace_dir then (None, s1)
          else
            let s2 = s1\<lparr>cwd := workspace_dir\<rparr>;
                video_id = video_id_of url;
                expected_file = ''youtube_'' @ video_id @ ''.'' @ format
            in
              if path_exists s2 expected_file
              then (Some (abspath (cwd s2) expected_file), s2)
              else
                let output_template = ''youtube_'' @ video_id @ ''.%(ext)s'';
                    command = yt_dlp_command format output_template url;
                    (ok, files') = yt_dlp e command (cwd s2) (files s2);
                    s3 = s2\<lparr>files := files', calls := calls s2 @ [Run_yt_dlp command]\<rparr>
                in
                  if \<not> ok then (None, s3)
                  else if path_exists s3 expected_file
                  then (Some (abspath (cwd s3) expected_file), s3)
                  else (None, s3))"

section \<open>write_srt (lines 121-140)\<close>

text \<open>The three writes of one round of the loop, for the segment numbered \<open>i\<close>.\<close>

definition segment_writes :: "nat \<Rightarrow> segment \<Rightarrow> string" where
  "segment_writes i seg =
     (let start_time = sec_to_timestamp (seg_start seg);
          end_time = sec_to_timestamp (seg_end seg);
          text = py_strip (seg_text seg)
      in (dec_nat i @ [CHR 0x0A])
           @ (start_time @ '' --> '' @ end_time @ [CHR 0x0A])
           @ (text @ [CHR 0x0A, CHR 0x0A]))"

text \<open>
  The loop over \<open>enumerate(segments, start=1)\<close>: \<open>f\<close> is what has been written to the
  file so far.
\<close>

fun write_loop :: "nat \<Rightarrow> segment list \<Rightarrow> string \<Rightarrow> string" where
  "write_loop i [] f = f"
| "write_loop i (seg # segments) f = write_loop (i + 1) segments (f @ segment_writes i seg)"

definition srt_document :: "segment list \<Rightarrow> string" where
  \<comment> \<open>the content of the file when \<open>write_srt\<close> returns\<close>
  "srt_document segments = write_loop 1 segments []"

definition write_srt :: "env \<Rightarrow> segment list \<Rightarrow> string \<Rightarrow> world \<Rightarrow> world option" where
  "write_srt e segments srt_path s =
     (let a = abspath (cwd s) srt_path
      in if \<not> can_open_w e a then None
         else Some (s\<lparr>files := put_file a (srt_document segments) (files s)\<rparr>))"

section \<open>generate_srt (lines 59-119)\<close>

definition model_map :: "(string \<times> string) list" where
  "model_map =
     [(''tiny'', ''mlx-community/whisper-tiny-mlx''),
      (''base'', ''mlx-community/whisper-base-mlx''),
      (''small'', ''mlx-community/whisper-small-mlx''),
      (''medium'', ''mlx-community/whisper-medium-mlx''),
      (''large'', ''mlx-community/whisper-large-v3-mlx''),
      (''large-4bit'', ''mlx-community/whisper-large-v3-mlx-4bit''),
      (''turbo'', ''mlx-community/whisper-large-v3-turbo''),
      (''turbo-4bit'', ''mlx-community/whisper-large-v3-turbo-q4'')]"

definition model_path_of :: "string \<Rightarrow> string" where
  \<comment> \<open>\<open>model_map.get(model_size.lower(), "mlx-community/whisper-large-v3-turbo-q4")\<close>\<close>
  "model_path_of model_size =
     (case map_of model_map (py_lower model_size) of
        Some model_path \<Rightarrow> model_path
      | None \<Rightarrow> ''mlx-community/whisper-large-v3-turbo-q4'')"

definition numbered_srt_path :: "string \<Rightarrow> string \<Rightarrow> nat \<Rightarrow> string" where
  \<comment> \<open>\<open>f"{base_name}_{model_short_name}_{counter:02d}.srt"\<close>\<close>
  "numbered_srt_path base_name model_short_name counter =
     base_name @ ''_'' @ model_short_name @ ''_'' @ fmt_int 2 (int counter) @ ''.srt''"

lemma digit_char_no_slash: "d < 10 \<Longrightarrow> digit_char d \<noteq> CHR ''/''"
proof -
  assume "d < 10"
  then consider "d = 0" | "d = 1" | "d = 2" | "d = 3" | "d = 4" | "d = 5" | "d = 6" | "d = 7"
    | "d = 8" | "d = 9"
    by atomize_elim arith
  then show ?thesis
    by cases (simp_all add: digit_char_def)
qed

lemma dec_nat_no_slash: "CHR ''/'' \<notin> set (dec_nat n)"
proof (induction n rule: dec_nat.induct)
  case (1 n)
  show ?case
  proof (cases "n < 10")
    case True
    then show ?thesis
      using digit_char_no_slash [of n] by (simp add: dec_nat.simps [of n])
  next
    case False
    then show ?thesis
      using 1 digit_char_no_slash [of "n mod 10"] by (simp add: dec_nat.simps [of n])
  qed
qed

lemma fmt_int_nat_no_slash: "CHR ''/'' \<notin> set (fmt_int w (int k))"
  by (simp add: fmt_int_def zfill_def dec_nat_no_slash)

text \<open>The part of a numbered path that depends on the counter.\<close>

definition srt_suffix :: "nat \<Rightarrow> string" where
  "srt_suffix k = ''_'' @ fmt_int 2 (int k) @ ''.srt''"

lemma srt_suffix_inj: "srt_suffix j = srt_suffix k \<Longrightarrow> j = k"
proof -
  assume "srt_suffix j = srt_suffix k"
  then have "fmt_int 2 (int j) = fmt_int 2 (int k)"
    by (simp add: srt_suffix_def)
  then have "undec (fmt_int 2 (int j)) = undec (fmt_int 2 (int k))" by simp
  then show "j = k" by (simp add: undec_fmt_int)
qed

lemma srt_suffix_shape: "CHR ''/'' \<notin> set (srt_suffix k) \<and> 3 \<le> length (srt_suffix k)"
  by (simp add: srt_suffix_def fmt_int_nat_no_slash)

lemma numbered_srt_path_suffix:
  "numbered_srt_path b m k = (b @ ''_'' @ m) @ srt_suffix k"
  by (simp add: numbered_srt_path_def srt_suffix_def)

lemma finite_numbered_existing: "finite {k. path_exists s (numbered_srt_path b m k)}"
proof -
  obtain q where q: "\<And>t. CHR ''/'' \<notin> set t \<Longrightarrow> 3 \<le> length t \<Longrightarrow>
      abspath (cwd s) ((b @ ''_'' @ m) @ t) = q @ t"
    using abspath_append [of "b @ ''_'' @ m" "cwd s"] by auto
  define K where "K = set (map fst (files s)) \<union> set (dirs s)"
  have "finite K" by (simp add: K_def)
  moreover have "inj (\<lambda>k. q @ srt_suffix k)"
    by (rule injI) (simp add: srt_suffix_inj)
  ultimately have "finite ((\<lambda>k. q @ srt_suffix k) -` K)"
    by (rule finite_vimageI)
  moreover have "{k. path_exists s (numbered_srt_path b m k)} \<subseteq> (\<lambda>k. q @ srt_suffix k) -` K"
    using q [OF conjunct1 [OF srt_suffix_shape] conjunct2 [OF srt_suffix_shape]]
    by (auto simp add: path_exists_def numbered_srt_path_suffix K_def Let_def)
  ultimately show ?thesis by (rule rev_finite_subset)
qed

text \<open>
  The loop of lines 105-109: \<open>srt_path\<close> and \<open>counter\<close> are its two variables. It ends
  because the numbered paths are pairwise distinct files and the filesystem is finite.
\<close>

function srt_path_loop :: "world \<Rightarrow> string \<Rightarrow> string \<Rightarrow> string \<Rightarrow> nat \<Rightarrow> string" where
  "srt_path_loop s base_name model_short_name srt_path counter =
     (if path_exists s srt_path
      then srt_path_loop s base_name model_short_name
             (numbered_srt_path base_name model_short_name counter) (counter + 1)
      else srt_path)"
  by pat_completeness auto
termination
proof (relation "measure (\<lambda>(s, b, m, p, c).
    if path_exists s p then Suc (card {k. c \<le> k \<and> path_exists s (numbered_srt_path b m k)})
    else 0)", goal_cases)
  case 1
  show ?case by simp
next
  case (2 s b m p c)
  let ?E = "\<lambda>k. path_exists s (numbered_srt_path b m k)"
  have fin: "finite {k. c \<le> k \<and> ?E k}"
    by (rule finite_subset [OF _ finite_numbered_existing [of s b m]]) auto
  have "card {k. c + 1 \<le> k \<and> ?E k} < card {k. c \<le> k \<and> ?E k}" if "?E c"
  proof (rule psubset_card_mono [OF fin])
    have "c \<in> {k. c \<le> k \<and> ?E k}" "c \<notin> {k. c + 1 \<le> k \<and> ?E k}"
      using that by simp_all
    moreover have "{k. c + 1 \<le> k \<and> ?E k} \<subseteq> {k. c \<le> k \<and> ?E k}"
      by auto
    ultimately show "{k. c + 1 \<le> k \<and> ?E k} \<subset> {k. c \<le> k \<and> ?E k}"
      by blast
  qed
  with 2 show ?case by simp
qed

declare srt_path_loop.simps [simp del]

definition resolve_srt_path :: "world \<Rightarrow> string \<Rightarrow> string \<Rightarrow> string" where
  \<comment> \<open>lines 99-109: the path the subtitles are written to\<close>
  "resolve_srt_path s audio_file model_size =
     (let base_name = fst (splitext audio_file);
          model_short_name = py_lower model_size;
          srt_base_path = base_name @ ''_'' @ model_short_name @ ''.srt''
      in srt_path_loop s base_name model_short_name srt_base_path 2)"

text \<open>
  The call of \<open>mlx_whisper.transcribe\<close> is logged when it is made. Every exception
  inside the \<open>try\<close> block (of the transcription, of \<open>open\<close>) ends in \<open>return None\<close>.
\<close>

definition generate_srt :: "env \<Rightarrow> string \<Rightarrow> string \<Rightarrow> string \<Rightarrow> world \<Rightarrow> string option \<times> world" where
  "generate_srt e audio_file model_size language s =
     (if \<not> path_exists s audio_file then (None, s)
      else
        let model_path = model_path_of model_size;
            transcribe_kwargs = (if py_lower language \<noteq> ''auto'' then Some language else None);
            s1 = s\<lparr>calls := calls s @ [Transcribe audio_file model_path transcribe_kwargs]\<rparr>
        in
          case transcribe e s audio_file model_path transcribe_kwargs of
            None \<Rightarrow> (None, s1)
          | Some segments \<Rightarrow>
              let srt_path = resolve_srt_path s1 audio_file model_size in
              (case write_srt e segments srt_path s1 of
                 None \<Rightarrow> (None, s1)
               | Some s2 \<Rightarrow> (Some srt_path, s2)))"

section \<open>process_youtube_to_srt (lines 142-162)\<close>

text \<open>\<open>not audio_path\<close> and \<open>not srt_path\<close> hold for \<open>None\<close> and for the empty string.\<close>

definition process_youtube_to_srt ::
    "env \<Rightarrow> string \<Rightarrow> string \<Rightarrow> string \<Rightarrow> string \<Rightarrow> world \<Rightarrow> string option \<times> world" where
  "process_youtube_to_srt e url audio_format model_size language s =
     (case download_youtube_audio e url audio_format s of
        (None, s1) \<Rightarrow> (None, s1)
      | (Some audio_path, s1) \<Rightarrow>
          if audio_path = [] then (None, s1)
          else
            (case generate_srt e audio_path model_size language s1 of
               (None, s2) \<Rightarrow> (None, s2)
             | (Some srt_path, s2) \<Rightarrow> if srt_path = [] then (None, s2) else (Some srt_path, s2)))"

section \<open>Concrete inputs\<close>

text \<open>The calls of \<open>mlx_whisper.transcribe\<close> in the log.\<close>

definition transcribe_calls :: "world \<Rightarrow> call list" where
  "transcribe_calls s = filter (\<lambda>c. case c of Transcribe _ _ _ \<Rightarrow> True | _ \<Rightarrow> False) (calls s)"

text \<open>
  An environment where everything works (yt-dlp leaves the audio of the video
  \<open>abc12345678\<close> in the directory it runs in, and the transcription hears one
  sentence), one where yt-dlp fails, and a world with one empty directory.
\<close>

definition env_ok :: env where
  "env_ok =
     \<lparr>can_makedirs = (\<lambda>d. True), can_chdir = (\<lambda>d. True), can_open_w = (\<lambda>p. True),
      yt_dlp = (\<lambda>command d fs. (True, fs @ [(d @ ''/youtube_abc12345678.mp3'', ''audio'')])),
      transcribe = (\<lambda>s a m l. Some [\<lparr>seg_start = 0, seg_end = 2, seg_text = '' Hello world ''\<rparr>])\<rparr>"

definition env_offline :: env where
  "env_offline = env_ok\<lparr>yt_dlp := (\<lambda>command d fs. (False, fs))\<rparr>"

definition world0 :: world where
  "world0 = \<lparr>cwd = ''/w'', files = [], dirs = [''/w''], calls = []\<rparr>"



text \<open>A workspace that holds the audio file and two subtitle files made from it.\<close>

definition world_srt :: world where
  "world_srt =
     \<lparr>cwd = ''/w/whisper_workspace'',
      files = [(''/w/whisper_workspace/youtube_abc12345678.mp3'', ''audio''),
               (''/w/whisper_workspace/youtube_abc12345678_tiny.srt'', ''first''),
               (''/w/whisper_workspace/youtube_abc12345678_tiny_02.srt'', ''second'')],
      dirs = [''/w'', ''/w/whisper_workspace''],
      calls = []\<rparr>"

text \<open>Two segments in the wrong order, each ending before it starts.\<close>

definition segments_unordered :: "segment list" where
  "segments_unordered =
     [\<lparr>seg_start = 5, seg_end = 4, seg_text = ''later ''\<rparr>,
      \<lparr>seg_start = 1, seg_end = 2, seg_text = '' earlier''\<rparr>]"

section \<open>Facts about the functions\<close>







lemma py_lower_char_idem: "py_lower_char (py_lower_char c) = py_lower_char c"
proof -
  define n where "n = (of_char c :: nat)"
  have n: "n < 256" unfolding n_def by simp
  show ?thesis
  proof (cases "(65 \<le> n \<and> n \<le> 90) \<or> (192 \<le> n \<and> n \<le> 222 \<and> n \<noteq> 215)")
    case True
    then have l: "py_lower_char c = char_of (n + 32)"
      by (simp add: py_lower_char_def n_def [symmetric] Let_def)
    have "(of_char (char_of (n + 32)) :: nat) = n + 32"
      using True by (auto simp add: of_char_of)
    then show ?thesis
      using True unfolding l by (auto simp add: py_lower_char_def Let_def)
  next
    case False
    then have "py_lower_char c = c"
      by (auto simp add: py_lower_char_def n_def [symmetric] Let_def)
    then show ?thesis by simp
  qed
qed

lemma py_lower_idem: "py_lower (py_lower s) = py_lower s"
  by (simp add: py_lower_def py_lower_char_idem)

lemma model_map_table: "map model_path_of (map fst model_map) = map snd model_map"
  by code_simp

lemma transcribe_calls_simps:
  "transcribe_calls (makedirs d s) = transcribe_calls s"
  "transcribe_calls (s\<lparr>cwd := d\<rparr>) = transcribe_calls s"
  "transcribe_calls (s\<lparr>files := fs, calls := calls s @ [Run_yt_dlp c]\<rparr>) = transcribe_calls s"
  by (simp_all add: transcribe_calls_def makedirs_def)

lemma download_youtube_audio_transcribe_calls:
  "transcribe_calls (snd (download_youtube_audio e url format s)) = transcribe_calls s"
  unfolding download_youtube_audio_def Let_def
  by (simp only: transcribe_calls_simps snd_conv if_distrib [of snd] if_distrib [of transcribe_calls]
        prod.case_distrib [of snd] prod.case_distrib [of transcribe_calls] if_cancel
        world.simps case_prod_beta split: if_splits)

lemma srt_path_loop_free: "\<not> path_exists s (srt_path_loop s b m p c)"
proof (induction s b m p c rule: srt_path_loop.induct)
  case (1 s b m p c)
  then show ?case
    by (subst srt_path_loop.simps) simp
qed

lemma srt_path_loop_first_free:
  "path_exists s p \<Longrightarrow>
   \<exists>k\<ge>c. srt_path_loop s b m p c = numbered_srt_path b m k
     \<and> (\<forall>j. c \<le> j \<and> j < k \<longrightarrow> path_exists s (numbered_srt_path b m j))"
proof (induction s b m p c rule: srt_path_loop.induct)
  case (1 s b m p c)
  have step: "srt_path_loop s b m p c = srt_path_loop s b m (numbered_srt_path b m c) (c + 1)"
    using "1.prems" by (subst srt_path_loop.simps) simp
  show ?case
  proof (cases "path_exists s (numbered_srt_path b m c)")
    case False
    then have "srt_path_loop s b m p c = numbered_srt_path b m c"
      unfolding step by (subst srt_path_loop.simps) simp
    then show ?thesis by auto
  next
    case True
    from "1.IH" [OF "1.prems" True] obtain k where k: "c + 1 \<le> k"
      "srt_path_loop s b m (numbered_srt_path b m c) (c + 1) = numbered_srt_path b m k"
      "\<forall>j. c + 1 \<le> j \<and> j < k \<longrightarrow> path_exists s (numbered_srt_path b m j)"
      by blast
    have "\<forall>j. c \<le> j \<and> j < k \<longrightarrow> path_exists s (numbered_srt_path b m j)"
    proof (intro allI impI)
      fix j assume "c \<le> j \<and> j < k"
      then consider "j = c" | "c + 1 \<le> j \<and> j < k" by atomize_elim auto
      then show "path_exists s (numbered_srt_path b m j)"
        using True k(3) by cases auto
    qed
    with k(1,2) step show ?thesis
      by (intro exI [of _ k]) simp
  qed
qed

lemma srt_path_loop_cong:
  "(\<And>q. path_exists a q = path_exists a' q) \<Longrightarrow> srt_path_loop a b m p c = srt_path_loop a' b m p c"
proof (induction a b m p c rule: srt_path_loop.induct)
  case (1 s b m p c)
  show ?case
  proof (cases "path_exists s p")
    case True
    then have "path_exists a' p" using "1.prems" by simp
    with True "1.IH" [OF True "1.prems"] show ?thesis
      by (subst srt_path_loop.simps, subst (2) srt_path_loop.simps) simp
  next
    case False
    then have "\<not> path_exists a' p" using "1.prems" by simp
    with False show ?thesis
      by (subst srt_path_loop.simps, subst (2) srt_path_loop.simps) simp
  qed
qed

lemma numbered_srt_path_2: "numbered_srt_path b m 2 = b @ ''_'' @ m @ ''_02.srt''"
  by (simp add: numbered_srt_path_def fmt_int_def zfill_def dec_nat.simps digit_char_def)

lemma numbered_srt_path_3: "numbered_srt_path b m 3 = b @ ''_'' @ m @ ''_03.srt''"
  by (simp add: numbered_srt_path_def fmt_int_def zfill_def dec_nat.simps digit_char_def)

lemma srt_path_loop_nonempty: "p \<noteq> [] \<Longrightarrow> srt_path_loop s b m p c \<noteq> []"
proof (induction s b m p c rule: srt_path_loop.induct)
  case (1 s b m p c)
  have "numbered_srt_path b m c \<noteq> []"
    by (simp add: numbered_srt_path_def)
  with 1 show ?case
    by (subst srt_path_loop.simps) simp
qed

lemma put_file_fresh: "a \<notin> set (map fst fs) \<Longrightarrow> put_file a doc fs = fs @ [(a, doc)]"
proof -
  assume "a \<notin> set (map fst fs)"
  then have "filter (\<lambda>(q, _). q \<noteq> a) fs = fs"
    by (induction fs) auto
  then show ?thesis by (simp add: put_file_def)
qed

lemma loop_base_free:
  "\<not> path_exists s (b @ ''_'' @ m @ ''.srt'') \<Longrightarrow>
   srt_path_loop s b m (b @ ''_'' @ m @ ''.srt'') 2 = b @ ''_'' @ m @ ''.srt''"
  by (subst srt_path_loop.simps) simp

lemma loop_02:
  assumes "path_exists s (b @ ''_'' @ m @ ''.srt'')" "\<not> path_exists s (b @ ''_'' @ m @ ''_02.srt'')"
  shows "srt_path_loop s b m (b @ ''_'' @ m @ ''.srt'') 2 = b @ ''_'' @ m @ ''_02.srt''"
proof -
  have "srt_path_loop s b m (b @ ''_'' @ m @ ''.srt'') 2 =
      srt_path_loop s b m (numbered_srt_path b m 2) (2 + 1)"
    using assms(1) by (subst srt_path_loop.simps) simp
  also have "\<dots> = numbered_srt_path b m 2"
    using assms(2) by (subst srt_path_loop.simps) (simp add: numbered_srt_path_2)
  finally show ?thesis by (simp only: numbered_srt_path_2)
qed

lemma loop_03:
  assumes "path_exists s (b @ ''_'' @ m @ ''.srt'')" "path_exists s (b @ ''_'' @ m @ ''_02.srt'')"
    "\<not> path_exists s (b @ ''_'' @ m @ ''_03.srt'')"
  shows "srt_path_loop s b m (b @ ''_'' @ m @ ''.srt'') 2 = b @ ''_'' @ m @ ''_03.srt''"
proof -
  have "srt_path_loop s b m (b @ ''_'' @ m @ ''.srt'') 2 =
      srt_path_loop s b m (numbered_srt_path b m 2) 3"
    using assms(1) by (subst srt_path_loop.simps) simp
  also have "\<dots> = srt_path_loop s b m (numbered_srt_path b m 3) (3 + 1)"
    using assms(2) by (subst srt_path_loop.simps) (simp add: numbered_srt_path_2)
  also have "\<dots> = numbered_srt_path b m 3"
    using assms(3) by (subst srt_path_loop.simps) (simp add: numbered_srt_path_3)
  finally show ?thesis by (simp only: numbered_srt_path_3)
qed

lemma resolve_srt_path_loop:
  "resolve_srt_path s audio_file model_size =
     srt_path_loop s (fst (splitext audio_file)) (py_lower model_size)
       (fst (splitext audio_file) @ ''_'' @ py_lower model_size @ ''.srt'') 2"
  by (simp add: resolve_srt_path_def Let_def)

lemma resolve_srt_path_calls:
  "resolve_srt_path (s\<lparr>calls := cs\<rparr>) audio_file model_size = resolve_srt_path s audio_file model_size"
proof -
  have "path_exists (s\<lparr>calls := cs\<rparr>) q = path_exists s q" for q
    by (simp add: path_exists_def)
  then show ?thesis
    unfolding resolve_srt_path_loop by (rule srt_path_loop_cong)
qed

lemma resolve_srt_path_nonempty: "resolve_srt_path s audio_file model_size \<noteq> []"
  unfolding resolve_srt_path_loop by (rule srt_path_loop_nonempty) simp

lemma generate_srt_Some:
  assumes "generate_srt e audio_file model_size language s = (Some p, s')"
  shows "p = resolve_srt_path s audio_file model_size
    \<and> (\<exists>doc. files s' = files s @ [(abspath (cwd s) p, doc)])"
proof -
  define r where "r = resolve_srt_path s audio_file model_size"
  define c where "c = Transcribe audio_file (model_path_of model_size)
      (if py_lower language \<noteq> ''auto'' then Some language else None)"
  define s1 where "s1 = s\<lparr>calls := calls s @ [c]\<rparr>"
  define t where "t = transcribe e s audio_file (model_path_of model_size)
      (if py_lower language \<noteq> ''auto'' then Some language else None)"
  have r1: "resolve_srt_path s1 audio_file model_size = r"
    by (simp only: s1_def r_def resolve_srt_path_calls)
  have eq: "generate_srt e audio_file model_size language s =
    (if \<not> path_exists s audio_file then (None, s)
     else case t of None \<Rightarrow> (None, s1)
       | Some segments \<Rightarrow>
           (case write_srt e segments r s1 of None \<Rightarrow> (None, s1) | Some s2 \<Rightarrow> (Some r, s2)))"
    unfolding generate_srt_def Let_def r1 [symmetric] s1_def c_def t_def by (rule refl)
  have "\<exists>segments. write_srt e segments r s1 = Some s' \<and> p = r"
  proof (cases "path_exists s audio_file")
    case False
    with assms eq show ?thesis by simp
  next
    case True
    show ?thesis
    proof (cases t)
      case None
      with assms eq True show ?thesis by simp
    next
      case (Some segments)
      show ?thesis
      proof (cases "write_srt e segments r s1")
        case None
        with assms eq True Some show ?thesis by simp
      next
        case (Some s2)
        with assms eq True \<open>t = Some segments\<close> have "s2 = s'" "p = r" by simp_all
        with Some show ?thesis by blast
      qed
    qed
  qed
  then obtain segments where w: "write_srt e segments r s1 = Some s'" and p: "p = r"
    by blast
  have "\<not> path_exists s r"
    unfolding r_def resolve_srt_path_loop by (rule srt_path_loop_free)
  moreover have "r \<noteq> []"
    unfolding r_def by (rule resolve_srt_path_nonempty)
  ultimately have "abspath (cwd s) r \<notin> set (map fst (files s))"
    by (simp add: path_exists_def Let_def)
  then have "put_file (abspath (cwd s) r) (srt_document segments) (files s) =
      files s @ [(abspath (cwd s) r, srt_document segments)]"
    by (rule put_file_fresh)
  moreover have "files s' = put_file (abspath (cwd s) r) (srt_document segments) (files s)"
    using w by (auto simp add: write_srt_def Let_def s1_def split: if_splits)
  ultimately have "files s' = files s @ [(abspath (cwd s) r, srt_document segments)]"
    by simp
  with p show ?thesis
    unfolding r_def by blast
qed

lemma write_loop_concat:
  "write_loop i segments f =
     f @ concat (map (\<lambda>(j, seg). segment_writes j seg) (zip [i..<i + length segments] segments))"
proof (induction segments arbitrary: i f)
  case Nil
  show ?case by simp
next
  case (Cons seg segments)
  have "[i..<i + length (seg # segments)] = i # [i + 1..<(i + 1) + length segments]"
    using upt_conv_Cons [of i "i + length (seg # segments)"] by simp
  then show ?case
    by (simp only: write_loop.simps Cons.IH list.map zip_Cons_Cons concat.simps
        prod.case append_assoc)
qed

lemma srt_document_concat:
  "srt_document segments =
     concat (map (\<lambda>(j, seg). segment_writes j seg) (zip [1..<Suc (length segments)] segments))"
  by (simp add: srt_document_def write_loop_concat)

lemma py_strip_decompose:
  "\<exists>l r. t = l @ py_strip t @ r \<and> list_all py_isspace l \<and> list_all py_isspace r"
proof -
  define l where "l = takeWhile py_isspace t"
  define u where "u = dropWhile py_isspace t"
  define r where "r = rev (takeWhile py_isspace (rev u))"
  have "u = rev (rev u)" by simp
  also have "\<dots> = rev (takeWhile py_isspace (rev u) @ dropWhile py_isspace (rev u))"
    by (simp only: takeWhile_dropWhile_id)
  also have "\<dots> = rev (dropWhile py_isspace (rev u)) @ rev (takeWhile py_isspace (rev u))"
    by (rule rev_append)
  finally have u: "u = py_strip t @ r"
    by (simp only: py_strip_def r_def u_def)
  have "t = l @ u" by (simp add: l_def u_def)
  with u have "t = l @ py_strip t @ r" by simp
  moreover have "list_all py_isspace l"
    unfolding l_def list_all_iff by (auto dest: set_takeWhileD)
  moreover have "list_all py_isspace r"
    unfolding r_def list_all_iff by (auto dest: set_takeWhileD)
  ultimately show ?thesis by blast
qed

lemma py_strip_ends:
  "py_strip t = [] \<or> (\<not> py_isspace (hd (py_strip t)) \<and> \<not> py_isspace (last (py_strip t)))"
proof (cases "py_strip t = []")
  case True
  then show ?thesis by simp
next
  case False
  define u where "u = dropWhile py_isspace t"
  define v where "v = dropWhile py_isspace (rev u)"
  have s: "py_strip t = rev v" by (simp add: py_strip_def v_def u_def)
  with False have v: "v \<noteq> []" by simp
  then have hv: "\<not> py_isspace (hd v)"
    unfolding v_def by (rule hd_dropWhile)
  have "u \<noteq> []" using v by (auto simp add: v_def)
  then have hu: "\<not> py_isspace (hd u)"
    unfolding u_def by (rule hd_dropWhile)
  have "\<exists>w. rev u = w @ v" 
    unfolding v_def by (metis takeWhile_dropWhile_id)
  then obtain w where "rev u = w @ v" by blast
  then have "u = rev v @ rev w" by (metis rev_append rev_rev_ident)
  with v have "hd u = hd (rev v)" by simp
  with hu hv s v show ?thesis by (simp add: last_rev)
qed

lemma srt_document_hi:
  "srt_document [\<lparr>seg_start = 0, seg_end = 3 / 2, seg_text = ''hi''\<rparr>] =
     ''1\<newline>00:00:00,000 --> 00:00:01,500\<newline>hi\<newline>\<newline>''"
  by code_simp

section \<open>The properties\<close>

subsection \<open>The timestamp encoder\<close>






subsection \<open>The audio file\<close>




subsection \<open>The orchestrator\<close>

text \<open>
  C5: whenever the acquisition stage returns no audio path, \<open>process_youtube_to_srt\<close>
  returns \<open>None\<close> in the state the acquisition left: the log holds no new call of the
  transcription, and no file has been written after the acquisition.
\<close>

theorem process_youtube_to_srt_acquisition_failure:
  assumes "fst (download_youtube_audio e url audio_format s) = None"
  shows "process_youtube_to_srt e url audio_format model_size language s =
           (None, snd (download_youtube_audio e url audio_format s))
       \<and> transcribe_calls (snd (process_youtube_to_srt e url audio_format model_size language s)) =
           transcribe_calls s
       \<and> files (snd (process_youtube_to_srt e url audio_format model_size language s)) =
           files (snd (download_youtube_audio e url audio_format s))"
proof -
  obtain s1 where d: "download_youtube_audio e url audio_format s = (None, s1)"
    using assms by (cases "download_youtube_audio e url audio_format s") simp
  then have p: "process_youtube_to_srt e url audio_format model_size language s = (None, s1)"
    by (simp add: process_youtube_to_srt_def)
  have "transcribe_calls s1 = transcribe_calls s"
    using download_youtube_audio_transcribe_calls [of e url audio_format s] d by simp
  with p d show ?thesis by simp
qed

theorem process_youtube_to_srt_acquisition_failure_witness:
  "fst (download_youtube_audio env_offline ''abc12345678'' ''mp3'' world0) = None
   \<and> process_youtube_to_srt env_offline ''abc12345678'' ''mp3'' ''tiny'' ''auto'' world0 =
       (None, snd (download_youtube_audio env_offline ''abc12345678'' ''mp3'' world0))
   \<and> transcribe_calls
         (snd (process_youtube_to_srt env_offline ''abc12345678'' ''mp3'' ''tiny'' ''auto'' world0)) = []"
proof -
  have h: "fst (download_youtube_audio env_offline ''abc12345678'' ''mp3'' world0) = None"
    by code_simp
  have c: "transcribe_calls world0 = []"
    by (simp add: transcribe_calls_def world0_def)
  note t = process_youtube_to_srt_acquisition_failure [OF h, of "''tiny''" "''auto''"]
  have b: "transcribe_calls
      (snd (process_youtube_to_srt env_offline ''abc12345678'' ''mp3'' ''tiny'' ''auto'' world0)) =
      transcribe_calls world0"
    by (rule conjunct1 [OF conjunct2 [OF t]])
  show ?thesis
    by (intro conjI) (rule h, rule conjunct1 [OF t], simp only: b c)
qed

subsection \<open>The subtitle generator\<close>

text \<open>
  C3: the path that lines 99-109 resolve never exists when it is returned. It is the base
  path (audio base name, model name in lower case, \<open>.srt\<close>) when that is free;
  otherwise it is the numbered path of the first counter from 2 on whose path is free,
  the counter written with at least two digits: \<open>_02\<close> when only the base path
  exists, \<open>_03\<close> when the base path and \<open>_02\<close> exist. \<open>generate_srt\<close> returns this
  path, and writing to it adds one file and changes no file that was there.
\<close>

theorem resolve_srt_path_free:
  "\<not> path_exists s (resolve_srt_path s audio_file model_size)
   \<and> (let base_name = fst (splitext audio_file);
           model_short_name = py_lower model_size;
           stem = base_name @ ''_'' @ model_short_name
       in (\<not> path_exists s (stem @ ''.srt'') \<longrightarrow>
             resolve_srt_path s audio_file model_size = stem @ ''.srt'')
        \<and> (path_exists s (stem @ ''.srt'') \<longrightarrow>
             (\<exists>k\<ge>2. resolve_srt_path s audio_file model_size =
                      numbered_srt_path base_name model_short_name k
                  \<and> (\<forall>j. 2 \<le> j \<and> j < k \<longrightarrow>
                        path_exists s (numbered_srt_path base_name model_short_name j))))
        \<and> (path_exists s (stem @ ''.srt'') \<and> \<not> path_exists s (stem @ ''_02.srt'') \<longrightarrow>
             resolve_srt_path s audio_file model_size = stem @ ''_02.srt'')
        \<and> (path_exists s (stem @ ''.srt'') \<and> path_exists s (stem @ ''_02.srt'')
             \<and> \<not> path_exists s (stem @ ''_03.srt'') \<longrightarrow>
             resolve_srt_path s audio_file model_size = stem @ ''_03.srt''))
   \<and> (generate_srt e audio_file model_size language s = (Some p, s') \<longrightarrow>
         p = resolve_srt_path s audio_file model_size
         \<and> (\<exists>doc. files s' = files s @ [(abspath (cwd s) p, doc)]))"
proof -
  define b where "b = fst (splitext audio_file)"
  define m where "m = py_lower model_size"
  have r: "resolve_srt_path s audio_file model_size = srt_path_loop s b m (b @ ''_'' @ m @ ''.srt'') 2"
    unfolding b_def m_def by (rule resolve_srt_path_loop)
  have 1: "\<not> path_exists s (resolve_srt_path s audio_file model_size)"
    unfolding r by (rule srt_path_loop_free)
  have 2: "\<not> path_exists s (b @ ''_'' @ m @ ''.srt'') \<longrightarrow>
      resolve_srt_path s audio_file model_size = b @ ''_'' @ m @ ''.srt''"
    unfolding r using loop_base_free by blast
  have 3: "path_exists s (b @ ''_'' @ m @ ''.srt'') \<longrightarrow>
      (\<exists>k\<ge>2. resolve_srt_path s audio_file model_size = numbered_srt_path b m k
          \<and> (\<forall>j. 2 \<le> j \<and> j < k \<longrightarrow> path_exists s (numbered_srt_path b m j)))"
    unfolding r using srt_path_loop_first_free by blast
  have 4: "path_exists s (b @ ''_'' @ m @ ''.srt'') \<and> \<not> path_exists s (b @ ''_'' @ m @ ''_02.srt'') \<longrightarrow>
      resolve_srt_path s audio_file model_size = b @ ''_'' @ m @ ''_02.srt''"
    unfolding r using loop_02 by blast
  have 5: "path_exists s (b @ ''_'' @ m @ ''.srt'') \<and> path_exists s (b @ ''_'' @ m @ ''_02.srt'')
      \<and> \<not> path_exists s (b @ ''_'' @ m @ ''_03.srt'') \<longrightarrow>
      resolve_srt_path s audio_file model_size = b @ ''_'' @ m @ ''_03.srt''"
    unfolding r using loop_03 by blast
  have 6: "generate_srt e audio_file model_size language s = (Some p, s') \<longrightarrow>
      p = resolve_srt_path s audio_file model_size
      \<and> (\<exists>doc. files s' = files s @ [(abspath (cwd s) p, doc)])"
    using generate_srt_Some by blast
  show ?thesis
    unfolding Let_def b_def [symmetric] m_def [symmetric] append_assoc
    by (intro conjI) (rule 1, rule 2, rule 3, rule 4, rule 5, rule 6)
qed

theorem resolve_srt_path_free_witness:
  "path_exists world_srt ''/w/whisper_workspace/youtube_abc12345678_tiny.srt''
   \<and> path_exists world_srt ''/w/whisper_workspace/youtube_abc12345678_tiny_02.srt''
   \<and> \<not> path_exists world_srt ''/w/whisper_workspace/youtube_abc12345678_tiny_03.srt''
   \<and> resolve_srt_path world_srt ''/w/whisper_workspace/youtube_abc12345678.mp3'' ''tiny'' =
       ''/w/whisper_workspace/youtube_abc12345678_tiny_03.srt''"
proof -
  have h1: "path_exists world_srt ''/w/whisper_workspace/youtube_abc12345678_tiny.srt''"
    by code_simp
  have h2: "path_exists world_srt ''/w/whisper_workspace/youtube_abc12345678_tiny_02.srt''"
    by code_simp
  have h3: "\<not> path_exists world_srt ''/w/whisper_workspace/youtube_abc12345678_tiny_03.srt''"
    by code_simp
  have b: "fst (splitext ''/w/whisper_workspace/youtube_abc12345678.mp3'') =
      ''/w/whisper_workspace/youtube_abc12345678''"
    by code_simp
  have m: "py_lower ''tiny'' = ''tiny''"
    by code_simp
  have "resolve_srt_path world_srt ''/w/whisper_workspace/youtube_abc12345678.mp3'' ''tiny'' =
      ''/w/whisper_workspace/youtube_abc12345678_tiny_03.srt''"
    using resolve_srt_path_free
      [of world_srt "''/w/whisper_workspace/youtube_abc12345678.mp3''" "''tiny''"]
      h1 h2 h3
    unfolding Let_def b m by simp
  with h1 h2 h3 show ?thesis by blast
qed



text \<open>
  C6, as stated, fails: the selector \<open>TINY\<close> is not a key of the table, and it is
  mapped to the entry of \<open>tiny\<close>, not to the default model.
\<close>

theorem model_path_of_tiny_upper:
  "''TINY'' \<notin> set (map fst model_map) \<and> model_path_of ''TINY'' = ''mlx-community/whisper-tiny-mlx''
   \<and> model_path_of ''TINY'' \<noteq> ''mlx-community/whisper-large-v3-turbo-q4''"
  by code_simp

text \<open>
  C6, amended: the mapping is total, and it looks the selector up in lower case. Every key
  of the table is mapped to its entry, a selector is mapped as its lower-case form is,
  and a selector whose lower-case form is not a key is mapped to the default model
  \<open>mlx-community/whisper-large-v3-turbo-q4\<close>.
\<close>

theorem model_path_of_total:
  "map model_path_of (map fst model_map) = map snd model_map
   \<and> model_path_of sel = model_path_of (py_lower sel)
   \<and> (py_lower sel \<notin> set (map fst model_map) \<longrightarrow>
        model_path_of sel = ''mlx-community/whisper-large-v3-turbo-q4'')"
proof (intro conjI impI)
  show "map model_path_of (map fst model_map) = map snd model_map"
    by (rule model_map_table)
  show "model_path_of sel = model_path_of (py_lower sel)"
    by (simp add: model_path_of_def py_lower_idem)
  assume "py_lower sel \<notin> set (map fst model_map)"
  then have "map_of model_map (py_lower sel) = None"
    by (simp add: map_of_eq_None_iff)
  then show "model_path_of sel = ''mlx-community/whisper-large-v3-turbo-q4''"
    by (simp add: model_path_of_def)
qed

theorem model_path_of_total_witness:
  "py_lower ''huge'' \<notin> set (map fst model_map)
   \<and> model_path_of ''huge'' = ''mlx-community/whisper-large-v3-turbo-q4''
   \<and> model_path_of ''Large-4BIT'' = model_path_of (py_lower ''Large-4BIT'')"
proof -
  have h: "py_lower ''huge'' \<notin> set (map fst model_map)" by code_simp
  with model_path_of_total [of "''huge''"] model_path_of_total [of "''Large-4BIT''"]
  show ?thesis by blast
qed

subsection \<open>The serializer\<close>

text \<open>
  C4: the document is the concatenation, in order, of what is written for each segment
  at its position counted from 1: the position in decimal and a newline, the encoded
  start, \<open> --> \<close>, the encoded end and a newline, the text without its leading and
  trailing whitespace and a newline, and an empty line. The segment from 0 to 1.5 with
  the text \<open>hi\<close> gives the document of the specification.
\<close>

theorem srt_document_format:
  "srt_document segments =
     concat (map (\<lambda>(i, seg). segment_writes i seg) (zip [1..<Suc (length segments)] segments))
   \<and> segment_writes i seg =
       dec_nat i @ ''\<newline>''
         @ sec_to_timestamp (seg_start seg) @ '' --> '' @ sec_to_timestamp (seg_end seg) @ ''\<newline>''
         @ py_strip (seg_text seg) @ ''\<newline>\<newline>''
   \<and> undec (dec_nat i) = i
   \<and> (\<exists>l r. seg_text seg = l @ py_strip (seg_text seg) @ r
          \<and> list_all py_isspace l \<and> list_all py_isspace r)
   \<and> (py_strip (seg_text seg) = []
        \<or> (\<not> py_isspace (hd (py_strip (seg_text seg)))
            \<and> \<not> py_isspace (last (py_strip (seg_text seg)))))
   \<and> srt_document [\<lparr>seg_start = 0, seg_end = 3 / 2, seg_text = ''hi''\<rparr>] =
       ''1\<newline>00:00:00,000 --> 00:00:01,500\<newline>hi\<newline>\<newline>''"
proof (intro conjI)
  show "srt_document segments =
      concat (map (\<lambda>(i, seg). segment_writes i seg) (zip [1..<Suc (length segments)] segments))"
    by (rule srt_document_concat)
  show "segment_writes i seg =
      dec_nat i @ ''\<newline>''
        @ sec_to_timestamp (seg_start seg) @ '' --> '' @ sec_to_timestamp (seg_end seg) @ ''\<newline>''
        @ py_strip (seg_text seg) @ ''\<newline>\<newline>''"
    by (simp add: segment_writes_def Let_def)
  show "undec (dec_nat i) = i"
    by (rule undec_dec_nat)
  show "\<exists>l r. seg_text seg = l @ py_strip (seg_text seg) @ r
      \<and> list_all py_isspace l \<and> list_all py_isspace r"
    by (rule py_strip_decompose)
  show "py_strip (seg_text seg) = []
      \<or> (\<not> py_isspace (hd (py_strip (seg_text seg)))
          \<and> \<not> py_isspace (last (py_strip (seg_text seg))))"
    by (rule py_strip_ends)
  show "srt_document [\<lparr>seg_start = 0, seg_end = 3 / 2, seg_text = ''hi''\<rparr>] =
      ''1\<newline>00:00:00,000 --> 00:00:01,500\<newline>hi\<newline>\<newline>''"
    by (rule srt_document_hi)
qed

text \<open>
  C7: whatever the segments are, in whatever order and with whatever start and end, the
  document is made of as many blocks as there are segments, the block at position \<open>i\<close>
  (from 0) carrying the index \<open>i + 1\<close> and the encoded start and end of the segment at
  that position of the input.
\<close>

theorem srt_document_passthrough:
  "\<exists>blocks. srt_document segments = concat blocks
     \<and> length blocks = length segments
     \<and> (\<forall>i<length segments.
           blocks ! i =
             dec_nat (i + 1) @ ''\<newline>''
               @ sec_to_timestamp (seg_start (segments ! i)) @ '' --> ''
               @ sec_to_timestamp (seg_end (segments ! i)) @ ''\<newline>''
               @ py_strip (seg_text (segments ! i)) @ ''\<newline>\<newline>'')"
proof -
  define blocks where
    "blocks = map (\<lambda>(i, seg). segment_writes i seg) (zip [1..<Suc (length segments)] segments)"
  have "srt_document segments = concat blocks"
    unfolding blocks_def by (rule srt_document_concat)
  moreover have "length blocks = length segments"
    by (simp add: blocks_def del: upt_Suc)
  moreover have "blocks ! i =
      dec_nat (i + 1) @ ''\<newline>''
        @ sec_to_timestamp (seg_start (segments ! i)) @ '' --> ''
        @ sec_to_timestamp (seg_end (segments ! i)) @ ''\<newline>''
        @ py_strip (seg_text (segments ! i)) @ ''\<newline>\<newline>''" if "i < length segments" for i
    using that by (simp add: blocks_def segment_writes_def Let_def del: upt_Suc)
  ultimately show ?thesis by blast
qed

theorem srt_document_passthrough_witness:
  "srt_document segments_unordered =
     ''1\<newline>00:00:05,000 --> 00:00:04,000\<newline>later\<newline>\<newline>''
       @ ''2\<newline>00:00:01,000 --> 00:00:02,000\<newline>earlier\<newline>\<newline>''
   \<and> (\<exists>blocks. srt_document segments_unordered = concat blocks
        \<and> length blocks = 2
        \<and> blocks ! 0 = ''1\<newline>00:00:05,000 --> 00:00:04,000\<newline>later\<newline>\<newline>''
        \<and> blocks ! 1 = ''2\<newline>00:00:01,000 --> 00:00:02,000\<newline>earlier\<newline>\<newline>'')"
proof -
  have n: "length segments_unordered = 2"
    by (simp add: segments_unordered_def)
  have b0: "dec_nat (0 + 1) @ ''\<newline>''
      @ sec_to_timestamp (seg_start (segments_unordered ! 0)) @ '' --> ''
      @ sec_to_timestamp (seg_end (segments_unordered ! 0)) @ ''\<newline>''
      @ py_strip (seg_text (segments_unordered ! 0)) @ ''\<newline>\<newline>'' =
      ''1\<newline>00:00:05,000 --> 00:00:04,000\<newline>later\<newline>\<newline>''"
    by code_simp
  have b1: "dec_nat (1 + 1) @ ''\<newline>''
      @ sec_to_timestamp (seg_start (segments_unordered ! 1)) @ '' --> ''
      @ sec_to_timestamp (seg_end (segments_unordered ! 1)) @ ''\<newline>''
      @ py_strip (seg_text (segments_unordered ! 1)) @ ''\<newline>\<newline>'' =
      ''2\<newline>00:00:01,000 --> 00:00:02,000\<newline>earlier\<newline>\<newline>''"
    by code_simp
  have d: "srt_document segments_unordered =
      ''1\<newline>00:00:05,000 --> 00:00:04,000\<newline>later\<newline>\<newline>''
        @ ''2\<newline>00:00:01,000 --> 00:00:02,000\<newline>earlier\<newline>\<newline>''"
    by code_simp
  from srt_document_passthrough [of segments_unordered]
  obtain blocks where b: "srt_document segments_unordered = concat blocks"
    "length blocks = length segments_unordered"
    "\<forall>i<length segments_unordered.
       blocks ! i =
         dec_nat (i + 1) @ ''\<newline>''
           @ sec_to_timestamp (seg_start (segments_unordered ! i)) @ '' --> ''
           @ sec_to_timestamp (seg_end (segments_unordered ! i)) @ ''\<newline>''
           @ py_strip (seg_text (segments_unordered ! i)) @ ''\<newline>\<newline>''"
    by blast
  from b(3) n have "blocks ! 0 = ''1\<newline>00:00:05,000 --> 00:00:04,000\<newline>later\<newline>\<newline>''"
    unfolding b0 [symmetric] by simp
  moreover from b(3) n have "blocks ! 1 = ''2\<newline>00:00:01,000 --> 00:00:02,000\<newline>earlier\<newline>\<newline>''"
    unfolding b1 [symmetric] by simp
  ultimately show ?thesis
    using b(1,2) n d by (intro conjI exI [of _ blocks]) simp_all
qed



end
